theory Spec2Isabelle
  imports Complex_Main "HOL-Library.Char_ord" "HOL-Library.List_Lexorder"
begin

section \<open>C library functions used by the three programs\<close>

text \<open>
  A C string is modelled as a \<open>string\<close> (the bytes before the terminating NUL).
  The programs never call \<open>setlocale\<close>, so the character classes are those of the C locale.
\<close>

definition isupper :: "char \<Rightarrow> bool" where
  "isupper c = (65 \<le> (of_char c :: nat) \<and> (of_char c :: nat) \<le> 90)"

definition islower :: "char \<Rightarrow> bool" where
  "islower c = (97 \<le> (of_char c :: nat) \<and> (of_char c :: nat) \<le> 122)"

definition isalpha :: "char \<Rightarrow> bool" where
  "isalpha c = (isupper c \<or> islower c)"


definition tolower :: "char \<Rightarrow> char" where
  "tolower c = (if isupper c then char_of ((of_char c :: nat) + 32) else c)"

text \<open>
  \<open>strcmp\<close>: the C standard fixes only the sign of the result, which is the sign of the
  difference of the first pair of bytes that differ, read as unsigned char; a proper prefix
  compares smaller.
\<close>

fun strcmp :: "string \<Rightarrow> string \<Rightarrow> int" where
  "strcmp [] [] = 0"
| "strcmp [] (y # ys) = - 1"
| "strcmp (x # xs) [] = 1"
| "strcmp (x # xs) (y # ys) =
     (if x = y then strcmp xs ys
      else if (of_char x :: nat) < of_char y then - 1 else 1)"


text \<open>
  All the tokens that a \<open>strtok(line, delims)\<close>, \<open>strtok(NULL, delims)\<close>, ... loop returns:
  the maximal runs of non-delimiter bytes, in order. \<open>cur\<close> is the token being read, reversed.
\<close>

fun strtok_acc :: "string \<Rightarrow> string \<Rightarrow> string \<Rightarrow> string list" where
  "strtok_acc delims [] cur = (if cur = [] then [] else [rev cur])"
| "strtok_acc delims (c # cs) cur =
     (if c \<in> set delims
      then (if cur = [] then strtok_acc delims cs [] else rev cur # strtok_acc delims cs [])
      else strtok_acc delims cs (c # cur))"

definition strtok_all :: "string \<Rightarrow> string \<Rightarrow> string list" where
  "strtok_all line delims = strtok_acc delims line []"

section \<open>invertedIndex.c\<close>

subsection \<open>normalizeWord\<close>

definition isTrailingPunct :: "char \<Rightarrow> bool" where
  "isTrailingPunct c =
     (c = CHR ''.'' \<or> c = CHR '','' \<or> c = CHR '':'' \<or> c = CHR '';'' \<or> c = CHR ''?'' \<or> c = CHR ''*'')"

text \<open>
  The loop \<open>while (len > 0 && punct(word[len - 1])) { word[len - 1] = 0; len--; }\<close>:
  the value of \<open>len\<close> when it stops.
\<close>

primrec stripLen :: "string \<Rightarrow> nat \<Rightarrow> nat" where
  "stripLen word 0 = 0"
| "stripLen word (Suc n) = (if isTrailingPunct (word ! n) then stripLen word n else Suc n)"

definition normalizeWord :: "string \<Rightarrow> string" where
  "normalizeWord word =
     (let lowered = map tolower word;
          len = stripLen lowered (length lowered);
          stripped = take len lowered
      in if len = 0 \<or> \<not> isalpha (stripped ! 0) then [] else stripped)"

subsection \<open>The index: a binary search tree of words, each with a sorted list of file names\<close>

datatype TreeNode =
    Null
  | TreeNode (word: string) (fileList: "string list") (left: TreeNode) (right: TreeNode)




text \<open>The lines of \<open>invertedIndex.txt\<close>, as (word, file names) in the order they are written.\<close>

fun indexEntries :: "TreeNode \<Rightarrow> (string \<times> string list) list" where
  "indexEntries Null = []"
| "indexEntries (TreeNode rw fl l r) = indexEntries l @ (rw, fl) # indexEntries r"


subsection \<open>parseFile and main\<close>







subsection \<open>Notions the statements use\<close>

text \<open>The (term, document) pairs an index holds, and its terms.\<close>

definition pairsOf :: "TreeNode \<Rightarrow> (string \<times> string) set" where
  "pairsOf t = (\<Union>e \<in> set (indexEntries t). {fst e} \<times> set (snd e))"

definition wordsOf :: "TreeNode \<Rightarrow> string set" where
  "wordsOf t = fst ` set (indexEntries t)"





subsection \<open>A two-document collection, as the index builder reads it\<close>





section \<open>pagerank.c\<close>

text \<open>
  \<open>int\<close> counters are unbounded integers: \<open>outDegree\<close> and \<open>iteration\<close> only count up from 0,
  by one per link token and per iteration.

  The array \<open>Page pages[]\<close> with its count \<open>N\<close> is the list of its first \<open>N\<close> entries, so
  \<open>N\<close> is \<open>length pages\<close>. The row \<open>int links[MAX_URLS]\<close> is a function from the index
  to the entry; only indices below \<open>N\<close> are ever read or written.
\<close>

subsection \<open>double\<close>

text \<open>
  A \<open>double\<close> is a number, an infinity or NaN. A number is taken exactly, as a rational:
  rounding and overflow are not part of the model, and zero has no sign. The operations
  follow IEEE 754 on the other values: NaN absorbs, \<open>inf - inf\<close>, \<open>0 * inf\<close>, \<open>0 / 0\<close> and
  \<open>inf / inf\<close> are NaN, and every comparison with NaN is false.
\<close>

datatype double = Num rat | PInf | MInf | NaN

definition infOfSign :: "rat \<Rightarrow> double" where
  "infOfSign a = (if a = 0 then NaN else if 0 < a then PInf else MInf)"

instantiation double :: "{zero, one, plus, uminus, minus, times, inverse, abs, ord}"
begin

definition zero_double :: double where
  "zero_double = Num 0"

definition one_double :: double where
  "one_double = Num 1"

fun plus_double :: "double \<Rightarrow> double \<Rightarrow> double" where
  "plus_double NaN y = NaN"
| "plus_double x NaN = NaN"
| "plus_double PInf MInf = NaN"
| "plus_double MInf PInf = NaN"
| "plus_double PInf y = PInf"
| "plus_double x PInf = PInf"
| "plus_double MInf y = MInf"
| "plus_double x MInf = MInf"
| "plus_double (Num a) (Num b) = Num (a + b)"

fun uminus_double :: "double \<Rightarrow> double" where
  "uminus_double (Num a) = Num (- a)"
| "uminus_double PInf = MInf"
| "uminus_double MInf = PInf"
| "uminus_double NaN = NaN"

definition minus_double :: "double \<Rightarrow> double \<Rightarrow> double" where
  "minus_double x y = x + (- y)"

fun times_double :: "double \<Rightarrow> double \<Rightarrow> double" where
  "times_double NaN y = NaN"
| "times_double x NaN = NaN"
| "times_double (Num a) (Num b) = Num (a * b)"
| "times_double (Num a) PInf = infOfSign a"
| "times_double (Num a) MInf = infOfSign (- a)"
| "times_double PInf (Num b) = infOfSign b"
| "times_double MInf (Num b) = infOfSign (- b)"
| "times_double PInf PInf = PInf"
| "times_double PInf MInf = MInf"
| "times_double MInf PInf = MInf"
| "times_double MInf MInf = PInf"

fun divide_double :: "double \<Rightarrow> double \<Rightarrow> double" where
  "divide_double NaN y = NaN"
| "divide_double x NaN = NaN"
| "divide_double (Num a) (Num b) = (if b = 0 then infOfSign a else Num (a / b))"
| "divide_double (Num a) PInf = Num 0"
| "divide_double (Num a) MInf = Num 0"
| "divide_double PInf (Num b) = (if b < 0 then MInf else PInf)"
| "divide_double MInf (Num b) = (if b < 0 then PInf else MInf)"
| "divide_double x y = NaN"

definition inverse_double :: "double \<Rightarrow> double" where
  "inverse_double x = divide (Num 1) x"

text \<open>\<open>fabs\<close>.\<close>

fun abs_double :: "double \<Rightarrow> double" where
  "abs_double (Num a) = Num \<bar>a\<bar>"
| "abs_double PInf = PInf"
| "abs_double MInf = PInf"
| "abs_double NaN = NaN"

fun less_eq_double :: "double \<Rightarrow> double \<Rightarrow> bool" where
  "less_eq_double NaN y = False"
| "less_eq_double x NaN = False"
| "less_eq_double MInf y = True"
| "less_eq_double x PInf = True"
| "less_eq_double (Num a) (Num b) = (a \<le> b)"
| "less_eq_double x y = False"

fun less_double :: "double \<Rightarrow> double \<Rightarrow> bool" where
  "less_double NaN y = False"
| "less_double x NaN = False"
| "less_double PInf y = False"
| "less_double x MInf = False"
| "less_double (Num a) (Num b) = (a < b)"
| "less_double x y = True"

instance ..

end

text \<open>Addition of these values is associative and commutative, with 0 neutral.\<close>

instance double :: comm_monoid_add
proof (standard, goal_cases)
  case (1 x y z)
  show ?case by (cases x; cases y; cases z; simp)
next
  case (2 x y)
  show ?case by (cases x; cases y; simp)
next
  case (3 x)
  show ?case by (cases x; simp add: zero_double_def)
qed

subsection \<open>Pages\<close>

definition MAX_URL_LENGTH :: nat where
  "MAX_URL_LENGTH = 100"

definition MAX_URLS :: nat where
  "MAX_URLS = 1000"

record Page =
  url :: string
  outDegree :: int
  pageRank :: double
  links :: "nat \<Rightarrow> int"

fun findPageIndex_from :: "Page list \<Rightarrow> nat \<Rightarrow> string \<Rightarrow> int" where
  "findPageIndex_from [] i u = - 1"
| "findPageIndex_from (p # ps) i u =
     (if strcmp (url p) u = 0 then int i else findPageIndex_from ps (Suc i) u)"

definition findPageIndex :: "Page list \<Rightarrow> string \<Rightarrow> int" where
  "findPageIndex pages u = findPageIndex_from pages 0 u"

subsection \<open>Graph construction\<close>

text \<open>The inner \<open>while (token != NULL)\<close> loop of \<open>processSection1\<close>, over the tokens of a line.\<close>

fun processTokens :: "Page list \<Rightarrow> nat \<Rightarrow> string list \<Rightarrow> Page list" where
  "processTokens pages i [] = pages"
| "processTokens pages i (token # rest) =
     (let linkedIndex = findPageIndex pages token
      in if linkedIndex \<noteq> - 1 \<and> linkedIndex \<noteq> int i
         then processTokens
                (pages[i := (pages ! i)\<lparr>links := (links (pages ! i))(nat linkedIndex := 1),
                                        outDegree := outDegree (pages ! i) + 1\<rparr>])
                i rest
         else processTokens pages i rest)"

text \<open>
  The outer \<open>while (fgets(line, sizeof(line), urlFile))\<close> loop, over the strings that the
  successive \<open>fgets\<close> calls return (each line with its newline).
\<close>

fun processLines :: "Page list \<Rightarrow> nat \<Rightarrow> bool \<Rightarrow> string list \<Rightarrow> Page list" where
  "processLines pages i inSection1 [] = pages"
| "processLines pages i inSection1 (line # rest) =
     (if strcmp line ''#start Section-1\<newline>'' = 0 then processLines pages i True rest
      else if strcmp line ''#end Section-1\<newline>'' = 0 then processLines pages i False rest
      else if inSection1
           then processLines (processTokens pages i (strtok_all line '' \<newline>'')) i inSection1 rest
           else processLines pages i inSection1 rest)"

definition processSection1 :: "string list \<Rightarrow> Page list \<Rightarrow> nat \<Rightarrow> Page list" where
  "processSection1 urlFile pages i = processLines pages i False urlFile"

text \<open>
  The ways the program ends other than by returning 0. The first four are an exit with
  status 1 after a message. \<open>UrlBufferOverflow\<close> is a name of \<open>MAX_URL_LENGTH\<close> bytes or more,
  which \<open>fscanf\<close> with an unbounded \<open>%s\<close> writes beyond \<open>char url[MAX_URL_LENGTH]\<close>: from
  there the behaviour of the program is undefined, and the model stops.
\<close>

datatype error =
  UsageError | CollectionOpenError | UrlFileOpenError | OutputOpenError | UrlBufferOverflow

text \<open>
  The first loop of \<open>readCollection\<close>, over the names that the successive \<open>fscanf\<close> calls
  return: it stops at \<open>maxPages\<close> names or at the end of the file. A name it reads must fit
  \<open>url\<close> with its terminating NUL.
\<close>

fun readUrls :: "nat \<Rightarrow> nat \<Rightarrow> string list \<Rightarrow> error + string list" where
  "readUrls maxPages N [] = Inr []"
| "readUrls maxPages N (u # rest) =
     (if N \<ge> maxPages then Inr []
      else if length u \<ge> MAX_URL_LENGTH then Inl UrlBufferOverflow
      else (case readUrls maxPages (Suc N) rest of
              Inl e \<Rightarrow> Inl e
            | Inr urls \<Rightarrow> Inr (u # urls)))"

definition initPage :: "nat \<Rightarrow> string \<Rightarrow> Page" where
  "initPage N u = \<lparr>url = u, outDegree = 0, pageRank = 1 / Num (of_nat N), links = (\<lambda>_. 0)\<rparr>"

text \<open>
  The last loop of \<open>readCollection\<close>: \<open>files\<close> gives the lines of \<open><name>.txt\<close>, or \<open>None\<close>
  when it cannot be opened, and then the program exits with status 1.
\<close>

fun parseUrlFiles ::
  "(string \<Rightarrow> string list option) \<Rightarrow> Page list \<Rightarrow> nat list \<Rightarrow> error + Page list" where
  "parseUrlFiles files pages [] = Inr pages"
| "parseUrlFiles files pages (i # rest) =
     (case files (url (pages ! i)) of
        None \<Rightarrow> Inl UrlFileOpenError
      | Some urlFile \<Rightarrow> parseUrlFiles files (processSection1 urlFile pages i) rest)"

definition readCollection ::
  "nat \<Rightarrow> string list option \<Rightarrow> (string \<Rightarrow> string list option) \<Rightarrow> error + Page list" where
  "readCollection maxPages collection files =
     (case collection of
        None \<Rightarrow> Inl CollectionOpenError
      | Some names \<Rightarrow>
          (case readUrls maxPages 0 names of
             Inl e \<Rightarrow> Inl e
           | Inr urls \<Rightarrow>
               (let N = length urls;
                    pages = map (initPage N) urls
                in parseUrlFiles files pages [0..<N])))"

subsection \<open>The iteration\<close>

definition initializePreviousRanks :: "Page list \<Rightarrow> double list" where
  "initializePreviousRanks pages = map pageRank pages"

text \<open>The inner loop of \<open>calculateNewRanks\<close> over \<open>j\<close>; \<open>acc\<close> is the variable \<open>sum\<close>.\<close>

fun sumIncoming :: "Page list \<Rightarrow> double list \<Rightarrow> nat \<Rightarrow> nat list \<Rightarrow> double \<Rightarrow> double" where
  "sumIncoming pages prevPR i [] acc = acc"
| "sumIncoming pages prevPR i (j # js) acc =
     sumIncoming pages prevPR i js
       (if links (pages ! j) i \<noteq> 0
        then (if outDegree (pages ! j) \<noteq> 0
              then acc + prevPR ! j / Num (of_int (outDegree (pages ! j)))
              else acc + prevPR ! j / Num (of_nat (length pages)))
        else acc)"

text \<open>The outer loop over \<open>i\<close>, writing \<open>pages[i].pageRank\<close> in place.\<close>

fun newRanksLoop :: "Page list \<Rightarrow> double list \<Rightarrow> double \<Rightarrow> nat list \<Rightarrow> Page list" where
  "newRanksLoop pages prevPR d [] = pages"
| "newRanksLoop pages prevPR d (i # rest) =
     newRanksLoop
       (pages[i := (pages ! i)\<lparr>pageRank :=
           ((1 - d) / Num (of_nat (length pages)))
             + (d * sumIncoming pages prevPR i [0..<length pages] 0)\<rparr>])
       prevPR d rest"

definition calculateNewRanks :: "Page list \<Rightarrow> double list \<Rightarrow> double \<Rightarrow> Page list" where
  "calculateNewRanks pages prevPR d = newRanksLoop pages prevPR d [0..<length pages]"

fun diffLoop :: "Page list \<Rightarrow> double list \<Rightarrow> nat list \<Rightarrow> double \<Rightarrow> double" where
  "diffLoop pages prevPR [] diff = diff"
| "diffLoop pages prevPR (i # rest) diff =
     diffLoop pages prevPR rest (diff + \<bar>pageRank (pages ! i) - prevPR ! i\<bar>)"

definition computePageRankDiff :: "Page list \<Rightarrow> double list \<Rightarrow> double" where
  "computePageRankDiff pages prevPR = diffLoop pages prevPR [0..<length pages] 0"

text \<open>
  The \<open>do ... while (iteration < maxIterations && diff >= diffPR)\<close> loop. The result is the
  state at exit: the pages, \<open>iteration\<close> and \<open>diff\<close>. When \<open>diff\<close> is NaN the comparison is
  false and the loop ends.
\<close>

function calculatePageRank_loop ::
  "Page list \<Rightarrow> double \<Rightarrow> double \<Rightarrow> int \<Rightarrow> int \<Rightarrow> Page list \<times> int \<times> double" where
  "calculatePageRank_loop pages d diffPR maxIterations iteration =
     (let prevPR = initializePreviousRanks pages;
          pages' = calculateNewRanks pages prevPR d;
          diff = computePageRankDiff pages' prevPR;
          iteration' = iteration + 1
      in if iteration' < maxIterations \<and> diff \<ge> diffPR
         then calculatePageRank_loop pages' d diffPR maxIterations iteration'
         else (pages', iteration', diff))"
  by pat_completeness auto
termination
  by (relation "measure (\<lambda>(pages, d, diffPR, maxIterations, iteration). nat (maxIterations - iteration))")
    auto

declare calculatePageRank_loop.simps [simp del]

definition calculatePageRank ::
  "Page list \<Rightarrow> double \<Rightarrow> double \<Rightarrow> int \<Rightarrow> Page list \<times> int \<times> double" where
  "calculatePageRank pages d diffPR maxIterations =
     calculatePageRank_loop pages d diffPR maxIterations 0"

text \<open>
  \<open>writePageRankToFile\<close>: when \<open>pagerankList.txt\<close> cannot be opened for writing the program
  exits with status 1; otherwise it sorts the pages with \<open>qsort\<close> by descending score and
  writes one line for each. The order \<open>qsort\<close> gives to equal scores is not fixed by the C
  standard, so the result here is the pages handed to it, before sorting.
\<close>

definition writePageRankToFile :: "bool \<Rightarrow> Page list \<Rightarrow> error + Page list" where
  "writePageRankToFile outputOpens pages = (if outputOpens then Inr pages else Inl OutputOpenError)"

text \<open>
  \<open>main\<close>: \<open>argc\<close> is the argument count, \<open>d\<close>, \<open>diffPR\<close> and \<open>maxIterations\<close> are what \<open>atof\<close>
  and \<open>atoi\<close> return for the three arguments, \<open>collection\<close> is the names in
  \<open>collection.txt\<close> (or \<open>None\<close> when it cannot be opened), \<open>files\<close> the document files and
  \<open>outputOpens\<close> whether \<open>pagerankList.txt\<close> can be opened for writing. \<open>Inr\<close> is a return
  with status 0.
\<close>

definition pagerank_main ::
  "nat \<Rightarrow> double \<Rightarrow> double \<Rightarrow> int \<Rightarrow> string list option \<Rightarrow> (string \<Rightarrow> string list option)
     \<Rightarrow> bool \<Rightarrow> error + Page list" where
  "pagerank_main argc d diffPR maxIterations collection files outputOpens =
     (if argc \<noteq> 4 then Inl UsageError
      else case readCollection MAX_URLS collection files of
             Inl e \<Rightarrow> Inl e
           | Inr pages \<Rightarrow>
               writePageRankToFile outputOpens
                 (fst (calculatePageRank pages d diffPR maxIterations)))"

text \<open>The exit status of the process, where the model says how it ends.\<close>

definition exit_status :: "error + 'a \<Rightarrow> int option" where
  "exit_status r =
     (case r of Inl UrlBufferOverflow \<Rightarrow> None | Inl _ \<Rightarrow> Some 1 | Inr _ \<Rightarrow> Some 0)"

subsection \<open>Notions the statements use\<close>

text \<open>One synchronous update, and the total movement it causes.\<close>

definition pr_step :: "double \<Rightarrow> Page list \<Rightarrow> Page list" where
  "pr_step d pages = calculateNewRanks pages (initializePreviousRanks pages) d"

definition pr_diff :: "double \<Rightarrow> Page list \<Rightarrow> double" where
  "pr_diff d pages = computePageRankDiff (pr_step d pages) (initializePreviousRanks pages)"

text \<open>Whether a \<open>double\<close> is a number, and its value.\<close>

fun isNum :: "double \<Rightarrow> bool" where
  "isNum (Num a) = True"
| "isNum x = False"

fun val :: "double \<Rightarrow> rat" where
  "val (Num a) = a"
| "val x = 0"

text \<open>The part of the pages that the iteration reads and never writes.\<close>

definition graphOf :: "Page list \<Rightarrow> ((nat \<Rightarrow> int) \<times> int) list" where
  "graphOf pages = map (\<lambda>p. (links p, outDegree p)) pages"

text \<open>What document \<open>j\<close> adds to \<open>sum\<close> in the update of document \<open>i\<close>.\<close>

definition contribution :: "Page list \<Rightarrow> double list \<Rightarrow> nat \<Rightarrow> nat \<Rightarrow> double" where
  "contribution pages prevPR i j =
     (if links (pages ! j) i \<noteq> 0
      then (if outDegree (pages ! j) \<noteq> 0
            then prevPR ! j / Num (of_int (outDegree (pages ! j)))
            else prevPR ! j / Num (of_nat (length pages)))
      else 0)"

text \<open>The tokens of the link section of a document file, as \<open>processSection1\<close> delimits it.\<close>

fun section1Tokens :: "bool \<Rightarrow> string list \<Rightarrow> string list" where
  "section1Tokens inSection1 [] = []"
| "section1Tokens inSection1 (line # rest) =
     (if line = ''#start Section-1\<newline>'' then section1Tokens True rest
      else if line = ''#end Section-1\<newline>'' then section1Tokens False rest
      else if inSection1 then strtok_all line '' \<newline>'' @ section1Tokens inSection1 rest
      else section1Tokens inSection1 rest)"

text \<open>The documents other than \<open>i\<close> that the link tokens \<open>toks\<close> name, each once.\<close>

definition distinctTargets :: "string list \<Rightarrow> nat \<Rightarrow> string list \<Rightarrow> nat list" where
  "distinctTargets names i toks =
     filter (\<lambda>j. j \<noteq> i \<and> names ! j \<in> set toks) [0..<length names]"

subsection \<open>A two-document collection\<close>

text \<open>Document A links to B; B links to nothing, so B is a dangling node.\<close>

definition exampleFiles :: "string \<Rightarrow> string list option" where
  "exampleFiles name =
     (if name = ''A'' then Some [''#start Section-1\<newline>'', ''B\<newline>'', ''#end Section-1\<newline>'']
      else if name = ''B'' then Some [''#start Section-1\<newline>'', ''#end Section-1\<newline>'']
      else None)"

definition exampleGraph :: "Page list" where
  "exampleGraph =
     [\<lparr>url = ''A'', outDegree = 1, pageRank = Num (1 / 2), links = (\<lambda>_. 0)(1 := 1)\<rparr>,
      \<lparr>url = ''B'', outDegree = 0, pageRank = Num (1 / 2), links = (\<lambda>_. 0)\<rparr>]"

text \<open>Document A names B twice in its link section.\<close>

definition duplicateFiles :: "string \<Rightarrow> string list option" where
  "duplicateFiles name =
     (if name = ''A'' then Some [''#start Section-1\<newline>'', ''B B\<newline>'', ''#end Section-1\<newline>'']
      else if name = ''B'' then Some [''#start Section-1\<newline>'', ''A\<newline>'', ''#end Section-1\<newline>'']
      else None)"

definition duplicateGraph :: "Page list" where
  "duplicateGraph =
     [\<lparr>url = ''A'', outDegree = 2, pageRank = Num (1 / 2), links = (\<lambda>_. 0)(1 := 1)\<rparr>,
      \<lparr>url = ''B'', outDegree = 1, pageRank = Num (1 / 2), links = (\<lambda>_. 0)(0 := 1)\<rparr>]"

text \<open>A manifest of 1001 distinct names, \<open>doc0000\<close> to \<open>doc1000\<close>, each with an empty file.\<close>

definition docName :: "nat \<Rightarrow> string" where
  "docName n =
     ''doc'' @ [char_of (48 + n div 1000 mod 10), char_of (48 + n div 100 mod 10),
                char_of (48 + n div 10 mod 10), char_of (48 + n mod 10)]"

definition manifest1001 :: "string list" where
  "manifest1001 = map docName [0..<1001]"

text \<open>A manifest of 1200 names, of which the last 200 are beyond \<open>MAX_URLS\<close>.\<close>

definition manifest1200 :: "string list" where
  "manifest1200 = map docName [0..<1200]"

definition emptyFiles :: "string \<Rightarrow> string list option" where
  "emptyFiles name = Some []"

section \<open>searchPagerank.c\<close>

record URL =
  u_url :: string
  matchCount :: int
  u_pageRank :: rat

record WordEntry =
  we_word :: string
  urls :: "string list"

text \<open>
  \<open>parsePageRankList\<close>, over the lines of \<open>pagerankList.txt\<close> that parse into a name and a
  score: every entry starts with \<open>matchCount = 0\<close>.
\<close>

definition parsePageRankList :: "(string \<times> rat) list \<Rightarrow> URL list" where
  "parsePageRankList entries =
     map (\<lambda>(name, r). \<lparr>u_url = name, matchCount = 0, u_pageRank = r\<rparr>) entries"

text \<open>The four nested loops of \<open>findMatchingURLs\<close>, innermost (over \<open>l\<close>) first.\<close>

fun loopL :: "string \<Rightarrow> URL list \<Rightarrow> URL list" where
  "loopL u [] = []"
| "loopL u (e # rest) =
     (if strcmp u (u_url e) = 0 then e\<lparr>matchCount := matchCount e + 1\<rparr> else e) # loopL u rest"

fun loopK :: "string list \<Rightarrow> URL list \<Rightarrow> URL list" where
  "loopK [] pageRankList = pageRankList"
| "loopK (u # rest) pageRankList = loopK rest (loopL u pageRankList)"

fun loopJ :: "string \<Rightarrow> WordEntry list \<Rightarrow> URL list \<Rightarrow> URL list" where
  "loopJ term [] pageRankList = pageRankList"
| "loopJ term (we # rest) pageRankList =
     (if strcmp term (we_word we) = 0 then loopJ term rest (loopK (urls we) pageRankList)
      else loopJ term rest pageRankList)"

fun loopI :: "string list \<Rightarrow> WordEntry list \<Rightarrow> URL list \<Rightarrow> URL list" where
  "loopI [] wordEntries pageRankList = pageRankList"
| "loopI (term # rest) wordEntries pageRankList =
     loopI rest wordEntries (loopJ term wordEntries pageRankList)"

text \<open>The result: the updated rank list and the array \<open>results\<close>.\<close>

definition findMatchingURLs ::
  "WordEntry list \<Rightarrow> URL list \<Rightarrow> string list \<Rightarrow> URL list \<times> URL list" where
  "findMatchingURLs wordEntries pageRankList searchTerms =
     (let counted = loopI searchTerms wordEntries pageRankList
      in (counted, filter (\<lambda>e. matchCount e > 0) counted))"

subsection \<open>Notions the statements use\<close>

text \<open>Whether the index lists document \<open>name\<close> under the term \<open>term\<close>.\<close>

definition indexHas :: "WordEntry list \<Rightarrow> string \<Rightarrow> string \<Rightarrow> bool" where
  "indexHas wordEntries term name =
     (\<exists>we \<in> set wordEntries. we_word we = term \<and> name \<in> set (urls we))"

text \<open>An index as \<open>invertedIndex.c\<close> writes it: no term twice, no document twice in a line.\<close>

definition wellFormedIndex :: "WordEntry list \<Rightarrow> bool" where
  "wellFormedIndex wordEntries =
     (distinct (map we_word wordEntries) \<and> (\<forall>we \<in> set wordEntries. distinct (urls we)))"

text \<open>
  How often the loops over \<open>j\<close> and \<open>k\<close> find the document \<open>name\<close> for one query term, and
  how often the four loops find it for the whole query.
\<close>

definition hits :: "WordEntry list \<Rightarrow> string \<Rightarrow> string \<Rightarrow> int" where
  "hits wordEntries term name =
     sum_list (map (\<lambda>we. if term = we_word we then int (count_list (urls we) name) else 0)
       wordEntries)"

definition queryHits :: "WordEntry list \<Rightarrow> string list \<Rightarrow> string \<Rightarrow> int" where
  "queryHits wordEntries searchTerms name =
     sum_list (map (\<lambda>term. hits wordEntries term name) searchTerms)"

text \<open>
  The number of query arguments, each occurrence counted, and the number of distinct query
  terms, whose document set in the index holds \<open>name\<close>.
\<close>

definition occurrenceMatches :: "WordEntry list \<Rightarrow> string list \<Rightarrow> string \<Rightarrow> nat" where
  "occurrenceMatches wordEntries searchTerms name =
     length (filter (\<lambda>term. indexHas wordEntries term name) searchTerms)"

definition distinctMatches :: "WordEntry list \<Rightarrow> string list \<Rightarrow> string \<Rightarrow> nat" where
  "distinctMatches wordEntries searchTerms name =
     card {term \<in> set searchTerms. indexHas wordEntries term name}"

subsection \<open>Two small indexes\<close>

definition catIndex :: "WordEntry list" where
  "catIndex = [\<lparr>we_word = ''cat'', urls = [''A'']\<rparr>]"

definition catDogIndex :: "WordEntry list" where
  "catDogIndex = [\<lparr>we_word = ''cat'', urls = [''A'', ''B'']\<rparr>,
                  \<lparr>we_word = ''dog'', urls = [''B'', ''C'']\<rparr>]"

definition catDogRanks :: "(string \<times> rat) list" where
  "catDogRanks = [(''A'', 1 / 2), (''B'', 3 / 10), (''C'', 1 / 5)]"

section \<open>Properties of the C library model\<close>



lemma strcmp_eq: "strcmp a b = 0 \<longleftrightarrow> a = b"
  by (induction a b rule: strcmp.induct) auto


lemma tolower_idem: "tolower (tolower c) = tolower c"
  by (simp add: tolower_def isupper_def)

section \<open>normalizeWord is idempotent\<close>

lemma stripLen_le: "stripLen w n \<le> n"
  by (induction n) auto

lemma stripLen_last: "stripLen w n = Suc k \<Longrightarrow> \<not> isTrailingPunct (w ! k)"
  by (induction n) (auto split: if_splits)

lemma stripLen_fix: "\<not> isTrailingPunct (w ! k) \<Longrightarrow> stripLen w (Suc k) = Suc k"
  by simp

lemma normalizeWord_Nil: "normalizeWord [] = []"
  by (simp add: normalizeWord_def)

lemma normalizeWord_cases:
  "normalizeWord w = [] \<or>
   (\<exists>k. stripLen (map tolower w) (length w) = Suc k \<and> Suc k \<le> length w \<and>
        normalizeWord w = take (Suc k) (map tolower w) \<and> isalpha (map tolower w ! 0))"
proof (cases "stripLen (map tolower w) (length w)")
  case 0
  then show ?thesis by (simp add: normalizeWord_def)
next
  case (Suc k)
  moreover have "stripLen (map tolower w) (length w) \<le> length w" by (rule stripLen_le)
  ultimately show ?thesis by (auto simp: normalizeWord_def Let_def)
qed

lemma normalizeWord_fix:
  assumes "stripLen (map tolower w) (length w) = Suc k" "Suc k \<le> length w"
    "isalpha (map tolower w ! 0)"
  shows "normalizeWord (take (Suc k) (map tolower w)) = take (Suc k) (map tolower w)"
proof -
  let ?s = "take (Suc k) (map tolower w)"
  have low: "map tolower ?s = ?s" by (simp add: take_map tolower_idem)
  have len: "length ?s = Suc k" using assms(2) by simp
  have "\<not> isTrailingPunct (map tolower w ! k)" using assms(1) by (rule stripLen_last)
  then have "\<not> isTrailingPunct (?s ! k)" by simp
  then have st: "stripLen ?s (Suc k) = Suc k" by (rule stripLen_fix)
  have al: "isalpha (?s ! 0)" using assms(3) by simp
  show ?thesis
    unfolding normalizeWord_def Let_def low len st using al len by simp
qed

text \<open>
  C9. For every token \<open>t\<close>, normalising twice gives what normalising once gives: lowercasing,
  stripping the trailing characters \<open>. , : ; ? *\<close> and emptying a result that is empty or does
  not start with a letter is idempotent.
\<close>

theorem normalizeWord_idempotent: "normalizeWord (normalizeWord t) = normalizeWord t"
  using normalizeWord_cases [of t] normalizeWord_fix [of t] normalizeWord_Nil by auto

section \<open>The PageRank iteration\<close>

lemma loop_unfold:
  "calculatePageRank_loop pages d thr m it =
     (if it + 1 < m \<and> thr \<le> pr_diff d pages
      then calculatePageRank_loop (pr_step d pages) d thr m (it + 1)
      else (pr_step d pages, it + 1, pr_diff d pages))"
  by (subst calculatePageRank_loop.simps) (simp add: Let_def pr_step_def pr_diff_def)

lemma loop_result:
  "\<exists>k\<ge>1. calculatePageRank_loop pages d thr m it =
            ((pr_step d ^^ k) pages, it + int k, pr_diff d ((pr_step d ^^ (k - 1)) pages))
     \<and> (m \<le> it + int k \<or> \<not> thr \<le> pr_diff d ((pr_step d ^^ (k - 1)) pages))
     \<and> (\<forall>j. 1 \<le> j \<and> j < k \<longrightarrow> it + int j < m \<and> thr \<le> pr_diff d ((pr_step d ^^ (j - 1)) pages))"
proof (induction "nat (m - it)" arbitrary: pages it rule: less_induct)
  case less
  show ?case
  proof (cases "it + 1 < m \<and> thr \<le> pr_diff d pages")
    case False
    then have "calculatePageRank_loop pages d thr m it = (pr_step d pages, it + 1, pr_diff d pages)"
      by (subst loop_unfold) auto
    with False show ?thesis by (intro exI [of _ 1]) auto
  next
    case True
    then have unf: "calculatePageRank_loop pages d thr m it =
        calculatePageRank_loop (pr_step d pages) d thr m (it + 1)"
      by (subst loop_unfold) simp
    from True have "nat (m - (it + 1)) < nat (m - it)" by simp
    from less [OF this, of "pr_step d pages"]
    obtain k where k: "1 \<le> k"
      and res: "calculatePageRank_loop (pr_step d pages) d thr m (it + 1) =
            ((pr_step d ^^ k) (pr_step d pages), it + 1 + int k,
             pr_diff d ((pr_step d ^^ (k - 1)) (pr_step d pages)))"
      and stop: "m \<le> it + 1 + int k \<or> \<not> thr \<le> pr_diff d ((pr_step d ^^ (k - 1)) (pr_step d pages))"
      and run: "\<forall>j. 1 \<le> j \<and> j < k \<longrightarrow> it + 1 + int j < m
            \<and> thr \<le> pr_diff d ((pr_step d ^^ (j - 1)) (pr_step d pages))"
      by blast
    from k obtain k' where k': "k = Suc k'" by (cases k) auto
    have sw: "\<And>n. (pr_step d ^^ n) (pr_step d pages) = (pr_step d ^^ Suc n) pages"
      by (simp add: funpow_swap1)
    have "calculatePageRank_loop pages d thr m it =
            ((pr_step d ^^ Suc k) pages, it + int (Suc k), pr_diff d ((pr_step d ^^ (Suc k - 1)) pages))"
      using unf res k' by (simp add: funpow_swap1)
    moreover have "m \<le> it + int (Suc k) \<or> \<not> thr \<le> pr_diff d ((pr_step d ^^ (Suc k - 1)) pages)"
      using stop k' by (auto simp: funpow_swap1)
    moreover have "\<forall>j. 1 \<le> j \<and> j < Suc k \<longrightarrow> it + int j < m
         \<and> thr \<le> pr_diff d ((pr_step d ^^ (j - 1)) pages)"
    proof (intro allI impI)
      fix j assume j: "1 \<le> j \<and> j < Suc k"
      show "it + int j < m \<and> thr \<le> pr_diff d ((pr_step d ^^ (j - 1)) pages)"
      proof (cases "j = 1")
        case True
        with \<open>it + 1 < m \<and> thr \<le> pr_diff d pages\<close> show ?thesis by simp
      next
        case False
        with j obtain j' where j': "j = Suc j'" "1 \<le> j'" "j' < k" by (cases j) auto
        with run have "it + 1 + int j' < m
            \<and> thr \<le> pr_diff d ((pr_step d ^^ (j' - 1)) (pr_step d pages))" by blast
        moreover from j' obtain j'' where "j' = Suc j''" by (cases j') auto
        ultimately show ?thesis using j' by (auto simp: funpow_swap1)
      qed
    qed
    ultimately show ?thesis by (intro exI [of _ "Suc k"]) simp
  qed
qed


lemma sumIncoming_contribution:
  "sumIncoming pages prevPR i js acc = acc + sum_list (map (contribution pages prevPR i) js)"
  by (induction js arbitrary: acc) (auto simp: contribution_def add.assoc)

lemma graphOf_length: "graphOf pages = graphOf pages' \<Longrightarrow> length pages = length pages'"
  by (metis graphOf_def length_map)

lemma graphOf_nth:
  assumes "graphOf pages = graphOf pages'" "j < length pages"
  shows "links (pages ! j) = links (pages' ! j) \<and> outDegree (pages ! j) = outDegree (pages' ! j)"
proof -
  have "graphOf pages ! j = graphOf pages' ! j" using assms(1) by simp
  moreover have "j < length pages'" using assms graphOf_length by metis
  ultimately show ?thesis using assms(2) by (simp add: graphOf_def)
qed

lemma contribution_cong:
  "graphOf pages = graphOf pages' \<Longrightarrow> j < length pages \<Longrightarrow>
   contribution pages prevPR i j = contribution pages' prevPR i j"
  using graphOf_nth [of pages pages' j] graphOf_length [of pages pages']
  by (simp add: contribution_def)

lemma sumIncoming_cong:
  assumes "graphOf pages = graphOf pages'"
  shows "sumIncoming pages prevPR i [0..<length pages] 0 =
         sumIncoming pages' prevPR i [0..<length pages'] 0"
proof -
  have "map (contribution pages prevPR i) [0..<length pages] =
        map (contribution pages' prevPR i) [0..<length pages]"
    using assms by (intro map_cong refl contribution_cong) simp_all
  then have "sum_list (map (contribution pages prevPR i) [0..<length pages]) =
        sum_list (map (contribution pages' prevPR i) [0..<length pages])"
    by (simp only:)
  then show ?thesis
    using graphOf_length [OF assms] by (simp add: sumIncoming_contribution)
qed

lemma graphOf_update_rank:
  "graphOf (pages[i := (pages ! i)\<lparr>pageRank := x\<rparr>]) = graphOf pages"
  by (cases "i < length pages") (simp_all add: graphOf_def list_eq_iff_nth_eq nth_list_update)

lemma newRanksLoop_graphOf: "graphOf (newRanksLoop pages prevPR d js) = graphOf pages"
  by (induction js arbitrary: pages) (simp_all add: graphOf_update_rank)

lemma newRanksLoop_url: "map url (newRanksLoop pages prevPR d js) = map url pages"
proof (induction js arbitrary: pages)
  case Nil
  show ?case by simp
next
  case (Cons i js)
  have "map url (pages[i := (pages ! i)\<lparr>pageRank := x\<rparr>]) = map url pages" for x
    by (cases "i < length pages") (simp_all add: list_eq_iff_nth_eq nth_list_update)
  with Cons show ?case by simp
qed

lemma newRanksLoop_nth:
  assumes "distinct js" "graphOf pages = graphOf pages0" "i < length pages"
  shows "pageRank (newRanksLoop pages prevPR d js ! i) =
     (if i \<in> set js
      then (1 - d) / Num (of_nat (length pages0)) + d * sumIncoming pages0 prevPR i [0..<length pages0] 0
      else pageRank (pages ! i))"
  using assms
proof (induction js arbitrary: pages)
  case Nil
  then show ?case by simp
next
  case (Cons k js)
  let ?x = "(1 - d) / Num (of_nat (length pages)) + d * sumIncoming pages prevPR k [0..<length pages] 0"
  let ?pages1 = "pages[k := (pages ! k)\<lparr>pageRank := ?x\<rparr>]"
  have g1: "graphOf ?pages1 = graphOf pages0"
    using Cons.prems(2) by (simp add: graphOf_update_rank)
  have len: "length pages = length pages0" using Cons.prems(2) by (rule graphOf_length)
  have x: "?x = (1 - d) / Num (of_nat (length pages0)) + d * sumIncoming pages0 prevPR k [0..<length pages0] 0"
    using sumIncoming_cong [OF Cons.prems(2)] len by simp
  have IH: "pageRank (newRanksLoop ?pages1 prevPR d js ! i) =
     (if i \<in> set js
      then (1 - d) / Num (of_nat (length pages0)) + d * sumIncoming pages0 prevPR i [0..<length pages0] 0
      else pageRank (?pages1 ! i))"
    using Cons.IH [OF _ g1] Cons.prems by simp
  show ?case
  proof (cases "i = k")
    case True
    then have "i \<notin> set js" using Cons.prems(1) by simp
    with IH True Cons.prems(3) x show ?thesis by simp
  next
    case False
    with IH show ?thesis by simp
  qed
qed

lemma pr_step_length: "length (pr_step d pages) = length pages"
  using graphOf_length [OF newRanksLoop_graphOf] by (simp add: pr_step_def calculateNewRanks_def)

lemma pr_step_url: "map url (pr_step d pages) = map url pages"
  by (simp add: pr_step_def calculateNewRanks_def newRanksLoop_url)

lemma pr_step_graphOf: "graphOf (pr_step d pages) = graphOf pages"
  by (simp add: pr_step_def calculateNewRanks_def newRanksLoop_graphOf)

lemma pr_step_pageRank:
  assumes "i < length pages"
  shows "pageRank (pr_step d pages ! i) =
     (1 - d) / Num (of_nat (length pages))
       + d * sum_list (map (contribution pages (map pageRank pages) i) [0..<length pages])"
  using newRanksLoop_nth [of "[0..<length pages]" pages pages i "map pageRank pages" d] assms
  by (simp add: pr_step_def calculateNewRanks_def initializePreviousRanks_def sumIncoming_contribution)

section \<open>Graph construction\<close>

lemma findPageIndex_from_cong:
  "map url ps = map url ps' \<Longrightarrow> findPageIndex_from ps i u = findPageIndex_from ps' i u"
proof (induction ps arbitrary: ps' i)
  case Nil
  then show ?case by simp
next
  case (Cons p ps)
  then obtain p' qs where "ps' = p' # qs" by (cases ps') auto
  with Cons show ?case by auto
qed

lemma findPageIndex_cong:
  "map url ps = map url ps' \<Longrightarrow> findPageIndex ps u = findPageIndex ps' u"
  unfolding findPageIndex_def by (rule findPageIndex_from_cong)

lemma findPageIndex_from_cases:
  "findPageIndex_from ps i u = - 1 \<and> u \<notin> url ` set ps \<or>
   (\<exists>k<length ps. findPageIndex_from ps i u = int (i + k) \<and> url (ps ! k) = u
       \<and> (\<forall>k'<k. url (ps ! k') \<noteq> u))"
proof (induction ps arbitrary: i)
  case Nil
  show ?case by simp
next
  case (Cons p ps)
  show ?case
  proof (cases "url p = u")
    case True
    then have "findPageIndex_from (p # ps) i u = int (i + 0) \<and> url ((p # ps) ! 0) = u
        \<and> (\<forall>k'<0. url ((p # ps) ! k') \<noteq> u)"
      by (simp add: strcmp_eq)
    then show ?thesis by blast
  next
    case False
    from Cons [of "Suc i"] show ?thesis
    proof
      assume "findPageIndex_from ps (Suc i) u = - 1 \<and> u \<notin> url ` set ps"
      with False show ?thesis by (auto simp: strcmp_eq)
    next
      assume "\<exists>k<length ps. findPageIndex_from ps (Suc i) u = int (Suc i + k) \<and> url (ps ! k) = u
        \<and> (\<forall>k'<k. url (ps ! k') \<noteq> u)"
      then obtain k where k: "k < length ps" "findPageIndex_from ps (Suc i) u = int (Suc i + k)"
        "url (ps ! k) = u" "\<forall>k'<k. url (ps ! k') \<noteq> u" by blast
      have "\<forall>k'<Suc k. url ((p # ps) ! k') \<noteq> u"
        using k(4) False by (auto simp: nth_Cons split: nat.splits)
      with k False have "Suc k < length (p # ps) \<and>
          findPageIndex_from (p # ps) i u = int (i + Suc k) \<and> url ((p # ps) ! Suc k) = u
          \<and> (\<forall>k'<Suc k. url ((p # ps) ! k') \<noteq> u)"
        by (simp add: strcmp_eq)
      then show ?thesis by blast
    qed
  qed
qed

lemma findPageIndex_range:
  "findPageIndex ps u = - 1 \<or> (0 \<le> findPageIndex ps u \<and> findPageIndex ps u < int (length ps))"
  using findPageIndex_from_cases [of ps 0 u] by (auto simp: findPageIndex_def)

lemma findPageIndex_distinct:
  assumes "distinct (map url ps)" "k < length ps"
  shows "findPageIndex ps u = int k \<longleftrightarrow> url (ps ! k) = u"
proof -
  from findPageIndex_from_cases [of ps 0 u] show ?thesis
  proof
    assume "findPageIndex_from ps 0 u = - 1 \<and> u \<notin> url ` set ps"
    with assms(2) show ?thesis by (auto simp: findPageIndex_def)
  next
    assume "\<exists>j<length ps. findPageIndex_from ps 0 u = int (0 + j) \<and> url (ps ! j) = u
        \<and> (\<forall>k'<j. url (ps ! k') \<noteq> u)"
    then obtain j where j: "j < length ps" "findPageIndex ps u = int j" "url (ps ! j) = u"
      by (auto simp: findPageIndex_def)
    have "url (ps ! k) = u \<longleftrightarrow> k = j"
      using assms j(1,3) by (metis distinct_conv_nth length_map nth_map)
    with j(2) show ?thesis by auto
  qed
qed

lemma update_url:
  "map url (pages[i := (pages ! i)\<lparr>links := f, outDegree := n\<rparr>]) = map url pages"
  by (cases "i < length pages") (simp_all add: list_eq_iff_nth_eq nth_list_update)

lemma processTokens_url: "map url (processTokens pages i toks) = map url pages"
  by (induction toks arbitrary: pages) (simp_all add: Let_def update_url)

lemma processTokens_length: "length (processTokens pages i toks) = length pages"
  using processTokens_url [of pages i toks] by (metis length_map)

lemma processTokens_append:
  "processTokens pages i (a @ b) = processTokens (processTokens pages i a) i b"
  by (induction a arbitrary: pages) (simp_all add: Let_def)

lemma processLines_tokens:
  "processLines pages i inSection1 lines = processTokens pages i (section1Tokens inSection1 lines)"
  by (induction lines arbitrary: pages inSection1) (simp_all add: strcmp_eq processTokens_append)

lemma processTokens_other:
  "j \<noteq> i \<Longrightarrow> processTokens pages i toks ! j = pages ! j"
  by (induction toks arbitrary: pages) (simp_all add: Let_def)

lemma processTokens_links:
  "i < length pages \<Longrightarrow> links (processTokens pages i toks ! i) k =
     (if \<exists>t\<in>set toks. findPageIndex pages t = int k \<and> k \<noteq> i then 1 else links (pages ! i) k)"
proof (induction toks arbitrary: pages)
  case Nil
  show ?case by simp
next
  case (Cons t toks)
  let ?p1 = "pages[i := (pages ! i)\<lparr>links := (links (pages ! i))(nat (findPageIndex pages t) := 1),
                                        outDegree := outDegree (pages ! i) + 1\<rparr>]"
  have fi: "findPageIndex ?p1 = findPageIndex pages"
    by (intro ext findPageIndex_cong update_url)
  show ?case
  proof (cases "findPageIndex pages t \<noteq> - 1 \<and> findPageIndex pages t \<noteq> int i")
    case False
    then have no: "\<not> (findPageIndex pages t = int k \<and> k \<noteq> i)" by auto
    have "processTokens pages i (t # toks) = processTokens pages i toks"
      using False by (auto simp: Let_def)
    moreover have "(\<exists>t'\<in>set (t # toks). findPageIndex pages t' = int k \<and> k \<noteq> i)
        \<longleftrightarrow> (\<exists>t'\<in>set toks. findPageIndex pages t' = int k \<and> k \<noteq> i)"
      using no by auto
    ultimately show ?thesis using Cons.IH [of pages] Cons.prems by (simp only:)
  next
    case True
    then have nn: "0 \<le> findPageIndex pages t" using findPageIndex_range [of pages t] by auto
    have unf: "processTokens pages i (t # toks) = processTokens ?p1 i toks"
      using True by (auto simp: Let_def)
    have "links (processTokens ?p1 i toks ! i) k =
       (if \<exists>t\<in>set toks. findPageIndex ?p1 t = int k \<and> k \<noteq> i then 1 else links (?p1 ! i) k)"
      using Cons.IH [of ?p1] Cons.prems by simp
    then have h: "links (processTokens ?p1 i toks ! i) k =
       (if \<exists>t\<in>set toks. findPageIndex pages t = int k \<and> k \<noteq> i then 1
        else if nat (findPageIndex pages t) = k then 1 else links (pages ! i) k)"
      using Cons.prems by (simp add: fi)
    have eq: "nat (findPageIndex pages t) = k \<longleftrightarrow> findPageIndex pages t = int k \<and> k \<noteq> i"
      using nn True by auto
    show ?thesis unfolding unf h eq by auto
  qed
qed

lemma processTokens_outDegree:
  "i < length pages \<Longrightarrow> outDegree (processTokens pages i toks ! i) =
     outDegree (pages ! i)
       + int (length (filter (\<lambda>t. findPageIndex pages t \<noteq> - 1 \<and> findPageIndex pages t \<noteq> int i) toks))"
proof (induction toks arbitrary: pages)
  case Nil
  show ?case by simp
next
  case (Cons t toks)
  let ?p1 = "pages[i := (pages ! i)\<lparr>links := (links (pages ! i))(nat (findPageIndex pages t) := 1),
                                        outDegree := outDegree (pages ! i) + 1\<rparr>]"
  have fi: "findPageIndex ?p1 = findPageIndex pages"
    by (intro ext findPageIndex_cong update_url)
  have "outDegree (processTokens ?p1 i toks ! i) = outDegree (?p1 ! i)
       + int (length (filter (\<lambda>t. findPageIndex ?p1 t \<noteq> - 1 \<and> findPageIndex ?p1 t \<noteq> int i) toks))"
    using Cons.IH [of ?p1] Cons.prems by simp
  then have h: "outDegree (processTokens ?p1 i toks ! i) = outDegree (pages ! i) + 1
       + int (length (filter (\<lambda>t. findPageIndex pages t \<noteq> - 1 \<and> findPageIndex pages t \<noteq> int i) toks))"
    using Cons.prems by (simp add: fi)
  show ?case
  proof (cases "findPageIndex pages t \<noteq> - 1 \<and> findPageIndex pages t \<noteq> int i")
    case True
    then show ?thesis using h by (simp add: Let_def)
  next
    case False
    then show ?thesis using Cons.IH [of pages] Cons.prems by (auto simp: Let_def)
  qed
qed

lemma processSection1_tokens:
  "processSection1 urlFile pages i = processTokens pages i (section1Tokens False urlFile)"
  by (simp add: processSection1_def processLines_tokens)

lemma parseUrlFiles_url:
  "parseUrlFiles files pages js = Inr pages' \<Longrightarrow> map url pages' = map url pages"
proof (induction js arbitrary: pages)
  case Nil
  then show ?case by simp
next
  case (Cons i js)
  then obtain urlFile where f: "files (url (pages ! i)) = Some urlFile"
    by (cases "files (url (pages ! i))") auto
  with Cons.prems have "parseUrlFiles files (processSection1 urlFile pages i) js = Inr pages'"
    by simp
  from Cons.IH [OF this] show ?case by (simp add: processSection1_tokens processTokens_url)
qed

lemma parseUrlFiles_succeeds:
  assumes "\<forall>u\<in>set (map url pages). files u \<noteq> None" "\<forall>i\<in>set js. i < length pages"
  shows "\<exists>pages'. parseUrlFiles files pages js = Inr pages'"
  using assms
proof (induction js arbitrary: pages)
  case Nil
  show ?case by simp
next
  case (Cons i js)
  then have "url (pages ! i) \<in> set (map url pages)" by simp
  with Cons.prems(1) obtain urlFile where f: "files (url (pages ! i)) = Some urlFile" by blast
  let ?p1 = "processSection1 urlFile pages i"
  have u1: "map url ?p1 = map url pages" by (simp add: processSection1_tokens processTokens_url)
  then have "length ?p1 = length pages" by (metis length_map)
  with Cons.prems u1 have "\<exists>pages'. parseUrlFiles files ?p1 js = Inr pages'"
    by (intro Cons.IH) simp_all
  with f show ?case by simp
qed

lemma parseUrlFiles_row:
  assumes "parseUrlFiles files pages js = Inr pages'" "distinct js" "i < length pages"
  shows "if i \<in> set js
         then \<exists>urlFile. files (url (pages ! i)) = Some urlFile \<and>
               (\<forall>k. links (pages' ! i) k =
                  (if \<exists>t\<in>set (section1Tokens False urlFile). findPageIndex pages t = int k \<and> k \<noteq> i
                   then 1 else links (pages ! i) k)) \<and>
               outDegree (pages' ! i) = outDegree (pages ! i)
                 + int (length (filter (\<lambda>t. findPageIndex pages t \<noteq> - 1 \<and> findPageIndex pages t \<noteq> int i)
                     (section1Tokens False urlFile)))
         else pages' ! i = pages ! i"
  using assms
proof (induction js arbitrary: pages)
  case Nil
  then show ?case by simp
next
  case (Cons j js)
  then obtain urlFile where f: "files (url (pages ! j)) = Some urlFile"
    by (cases "files (url (pages ! j))") auto
  let ?p1 = "processSection1 urlFile pages j"
  have p1: "?p1 = processTokens pages j (section1Tokens False urlFile)"
    by (rule processSection1_tokens)
  have u1: "map url ?p1 = map url pages" by (simp add: p1 processTokens_url)
  have l1: "length ?p1 = length pages" by (simp add: p1 processTokens_length)
  have fi: "findPageIndex ?p1 = findPageIndex pages"
    using u1 by (intro ext findPageIndex_cong)
  have rest: "parseUrlFiles files ?p1 js = Inr pages'" using Cons.prems(1) f by simp
  have IH: "if i \<in> set js
         then \<exists>urlFile. files (url (?p1 ! i)) = Some urlFile \<and>
               (\<forall>k. links (pages' ! i) k =
                  (if \<exists>t\<in>set (section1Tokens False urlFile). findPageIndex ?p1 t = int k \<and> k \<noteq> i
                   then 1 else links (?p1 ! i) k)) \<and>
               outDegree (pages' ! i) = outDegree (?p1 ! i)
                 + int (length (filter (\<lambda>t. findPageIndex ?p1 t \<noteq> - 1 \<and> findPageIndex ?p1 t \<noteq> int i)
                     (section1Tokens False urlFile)))
         else pages' ! i = ?p1 ! i"
    using Cons.IH [OF rest] Cons.prems(2,3) l1 by simp
  show ?case
  proof (cases "i = j")
    case True
    then have "i \<notin> set js" using Cons.prems(2) by simp
    with IH have "pages' ! i = ?p1 ! i" by simp
    then show ?thesis
      using True f Cons.prems(3) processTokens_links [of j pages "section1Tokens False urlFile"]
        processTokens_outDegree [of j pages "section1Tokens False urlFile"]
      by (simp add: p1)
  next
    case False
    then have same: "?p1 ! i = pages ! i" by (simp add: p1 processTokens_other)
    show ?thesis using IH False unfolding fi same by simp
  qed
qed


lemma readUrls_fits:
  "\<forall>u\<in>set (take (maxPages - N) names). length u < MAX_URL_LENGTH \<Longrightarrow>
   readUrls maxPages N names = Inr (take (maxPages - N) names)"
proof (induction names arbitrary: N)
  case Nil
  show ?case by simp
next
  case (Cons u rest)
  show ?case
  proof (cases "maxPages \<le> N")
    case True
    then show ?thesis by simp
  next
    case False
    then obtain m where m: "maxPages - N = Suc m" by (cases "maxPages - N") auto
    then have m': "maxPages - Suc N = m" by simp
    from Cons.prems m have "length u < MAX_URL_LENGTH"
      and "\<forall>v\<in>set (take (maxPages - Suc N) rest). length v < MAX_URL_LENGTH"
      by (simp_all add: m')
    with Cons.IH [of "Suc N"] False m m' show ?thesis by simp
  qed
qed

lemma readUrls_Inr:
  "readUrls maxPages N names = Inr us \<Longrightarrow>
   us = take (maxPages - N) names \<and> (\<forall>u\<in>set us. length u < MAX_URL_LENGTH)"
proof (induction names arbitrary: N us)
  case Nil
  then show ?case by simp
next
  case (Cons u rest)
  show ?case
  proof (cases "maxPages \<le> N")
    case True
    with Cons.prems show ?thesis by simp
  next
    case False
    then obtain m where m: "maxPages - N = Suc m" by (cases "maxPages - N") auto
    then have m': "maxPages - Suc N = m" by simp
    from Cons.prems False have fit: "length u < MAX_URL_LENGTH"
      by (simp split: if_splits)
    with Cons.prems False obtain us' where r: "readUrls maxPages (Suc N) rest = Inr us'"
      and us: "us = u # us'"
      by (auto split: sum.splits)
    from Cons.IH [OF r] fit us m m' show ?thesis by simp
  qed
qed

lemma readCollection_Inr:
  assumes "readCollection maxPages (Some names) files = Inr pages"
  shows "parseUrlFiles files (map (initPage (length (take maxPages names))) (take maxPages names))
       [0..<length (take maxPages names)] = Inr pages"
    and "\<forall>u\<in>set (take maxPages names). length u < MAX_URL_LENGTH"
proof -
  from assms obtain us where r: "readUrls maxPages 0 names = Inr us"
    by (cases "readUrls maxPages 0 names") (simp_all add: readCollection_def)
  from readUrls_Inr [OF r] have us: "us = take maxPages names"
    and fit: "\<forall>u\<in>set us. length u < MAX_URL_LENGTH" by simp_all
  from assms r show "parseUrlFiles files (map (initPage (length (take maxPages names)))
       (take maxPages names)) [0..<length (take maxPages names)] = Inr pages"
    unfolding us by (simp add: readCollection_def Let_def)
  from fit show "\<forall>u\<in>set (take maxPages names). length u < MAX_URL_LENGTH"
    unfolding us .
qed

lemma readCollection_fits:
  assumes "\<forall>u\<in>set (take maxPages names). length u < MAX_URL_LENGTH"
  shows "readCollection maxPages (Some names) files =
     parseUrlFiles files (map (initPage (length (take maxPages names))) (take maxPages names))
       [0..<length (take maxPages names)]"
  using readUrls_fits [of maxPages 0 names] assms by (simp add: readCollection_def Let_def)

lemma initPage_url: "map url (map (initPage N) us) = us"
  by (simp add: initPage_def comp_def)

lemma readCollection_url:
  assumes "readCollection maxPages (Some names) files = Inr pages"
  shows "map url pages = take maxPages names"
  using parseUrlFiles_url [OF readCollection_Inr(1) [OF assms]] by (simp only: initPage_url)

lemma readCollection_succeeds:
  assumes "\<forall>u\<in>set (take maxPages names). length u < MAX_URL_LENGTH"
    and "\<forall>u\<in>set (take maxPages names). files u \<noteq> None"
  shows "\<exists>pages. readCollection maxPages (Some names) files = Inr pages"
  unfolding readCollection_fits [OF assms(1)]
  using assms(2) by (intro parseUrlFiles_succeeds) (simp_all only: initPage_url length_map set_upt atLeastLessThan_iff, simp_all)

lemma readCollection_graph:
  assumes "readCollection maxPages (Some names) files = Inr pages" "i < length pages"
  shows "\<exists>urlFile. files (url (pages ! i)) = Some urlFile \<and>
           (\<forall>k. links (pages ! i) k =
              (if \<exists>t\<in>set (section1Tokens False urlFile). findPageIndex pages t = int k \<and> k \<noteq> i
               then 1 else 0)) \<and>
           outDegree (pages ! i) =
             int (length (filter (\<lambda>t. findPageIndex pages t \<noteq> - 1 \<and> findPageIndex pages t \<noteq> int i)
                 (section1Tokens False urlFile)))"
proof -
  let ?us = "take maxPages names"
  let ?p0 = "map (initPage (length ?us)) ?us"
  have run: "parseUrlFiles files ?p0 [0..<length ?us] = Inr pages"
    using assms(1) by (rule readCollection_Inr(1))
  have u: "map url pages = map url ?p0" using run by (rule parseUrlFiles_url)
  then have len: "length pages = length ?p0" by (metis length_map)
  have fi: "findPageIndex ?p0 = findPageIndex pages"
    using u by (intro ext findPageIndex_cong) simp
  have i0: "i < length ?p0" using assms(2) len by simp
  then have mem: "i \<in> set [0..<length ?us]" by simp
  have pi: "url (?p0 ! i) = url (pages ! i)"
    using u i0 len by (metis nth_map)
  have init: "links (?p0 ! i) = (\<lambda>_. 0)" "outDegree (?p0 ! i) = 0"
    using i0 by (simp_all add: initPage_def)
  from parseUrlFiles_row [OF run distinct_upt i0] mem
  show ?thesis unfolding fi pi init by simp
qed

lemma dangling_no_links:
  assumes "readCollection maxPages (Some names) files = Inr pages" "j < length pages"
    "outDegree (pages ! j) = 0"
  shows "links (pages ! j) i = 0"
proof -
  from readCollection_graph [OF assms(1,2)] obtain urlFile where
    l: "\<forall>k. links (pages ! j) k =
              (if \<exists>t\<in>set (section1Tokens False urlFile). findPageIndex pages t = int k \<and> k \<noteq> j
               then 1 else 0)"
    and o: "outDegree (pages ! j) =
             int (length (filter (\<lambda>t. findPageIndex pages t \<noteq> - 1 \<and> findPageIndex pages t \<noteq> int j)
                 (section1Tokens False urlFile)))"
    by blast
  from o assms(3) have "filter (\<lambda>t. findPageIndex pages t \<noteq> - 1 \<and> findPageIndex pages t \<noteq> int j)
                 (section1Tokens False urlFile) = []" by simp
  then have "\<forall>t\<in>set (section1Tokens False urlFile).
        \<not> (findPageIndex pages t \<noteq> - 1 \<and> findPageIndex pages t \<noteq> int j)"
    by (simp add: filter_empty_conv)
  then have "\<not> (\<exists>t\<in>set (section1Tokens False urlFile). findPageIndex pages t = int i \<and> i \<noteq> j)"
    by auto
  with l show ?thesis by simp
qed

lemma funpow_pr_step_graphOf: "graphOf ((pr_step d ^^ n) pages) = graphOf pages"
  by (induction n) (simp_all add: pr_step_graphOf)

lemma funpow_pr_step_url: "map url ((pr_step d ^^ n) pages) = map url pages"
  by (induction n) (simp_all add: pr_step_url)

lemma dangling_contributes_nothing:
  assumes "readCollection maxPages (Some names) files = Inr pages" "j < length pages"
    "outDegree (pages ! j) = 0"
  shows "contribution ((pr_step d ^^ n) pages) prevPR i j = 0"
proof -
  have "contribution ((pr_step d ^^ n) pages) prevPR i j = contribution pages prevPR i j"
    using funpow_pr_step_graphOf [where d = d and n = n and pages = pages] assms(2)
      graphOf_length [OF funpow_pr_step_graphOf [where d = d and n = n and pages = pages]]
    by (intro contribution_cong) simp_all
  also have "\<dots> = 0"
    using dangling_no_links [OF assms] by (simp add: contribution_def)
  finally show ?thesis .
qed

lemma calculatePageRank_url:
  "map url (fst (calculatePageRank pages d diffPR maxIterations)) = map url pages"
  using loop_result [of pages d diffPR maxIterations 0]
  by (auto simp: calculatePageRank_def funpow_pr_step_url)

lemma pagerank_main_truncates:
  assumes "\<forall>u\<in>set (take MAX_URLS names). length u < MAX_URL_LENGTH"
    and "\<forall>u\<in>set (take MAX_URLS names). files u \<noteq> None"
  shows "\<exists>pages. pagerank_main 4 d diffPR maxIterations (Some names) files True = Inr pages
           \<and> map url pages = take MAX_URLS names"
proof -
  from readCollection_succeeds [OF assms] obtain pages0 where
    r: "readCollection MAX_URLS (Some names) files = Inr pages0" by blast
  then have "map url pages0 = take MAX_URLS names" by (rule readCollection_url)
  with r show ?thesis
    by (simp add: pagerank_main_def writePageRankToFile_def calculatePageRank_url)
qed

section \<open>Claims about pagerank.c\<close>

lemma isNum_iff: "isNum x \<longleftrightarrow> (\<exists>a. x = Num a)"
  by (cases x) simp_all






lemma double_less_not_le:
  fixes a b :: double
  shows "a < b \<Longrightarrow> \<not> b \<le> a"
  by (cases a; cases b) simp_all


lemma readCollection_edges:
  assumes "readCollection maxPages (Some names) files = Inr pages" "i < length pages"
    "distinct (take maxPages names)" "files (url (pages ! i)) = Some urlFile"
  shows "links (pages ! i) k \<noteq> 0 \<longleftrightarrow>
           k < length pages \<and> k \<noteq> i \<and> url (pages ! k) \<in> set (section1Tokens False urlFile)"
proof -
  have d: "distinct (map url pages)" using readCollection_url [OF assms(1)] assms(3) by simp
  from readCollection_graph [OF assms(1,2)] assms(4) have
    l: "links (pages ! i) k =
              (if \<exists>t\<in>set (section1Tokens False urlFile). findPageIndex pages t = int k \<and> k \<noteq> i
               then 1 else 0)"
    by auto
  show ?thesis
  proof
    assume "links (pages ! i) k \<noteq> 0"
    with l obtain t where t: "t \<in> set (section1Tokens False urlFile)"
      "findPageIndex pages t = int k" "k \<noteq> i"
      by (auto split: if_splits)
    from t(2) findPageIndex_range [of pages t] have k: "k < length pages" by auto
    with d t(2) have "url (pages ! k) = t" by (simp add: findPageIndex_distinct)
    with t k show "k < length pages \<and> k \<noteq> i \<and> url (pages ! k) \<in> set (section1Tokens False urlFile)"
      by simp
  next
    assume a: "k < length pages \<and> k \<noteq> i \<and> url (pages ! k) \<in> set (section1Tokens False urlFile)"
    then have "findPageIndex pages (url (pages ! k)) = int k"
      using d by (simp add: findPageIndex_distinct)
    with a l show "links (pages ! i) k \<noteq> 0" by auto
  qed
qed











lemma manifest_fits: "\<forall>u\<in>set (take k (map docName xs)). length u < MAX_URL_LENGTH"
  by (auto dest!: in_set_takeD simp: docName_def MAX_URL_LENGTH_def)

lemma example_readCollection:
  "readCollection MAX_URLS (Some [''A'', ''B'']) exampleFiles = Inr exampleGraph"
  by (simp add: readCollection_def MAX_URLS_def exampleFiles_def exampleGraph_def initPage_def
      processSection1_def strtok_all_def findPageIndex_def Let_def upt_rec MAX_URL_LENGTH_def
      one_double_def)

lemma duplicate_readCollection:
  "readCollection MAX_URLS (Some [''A'', ''B'']) duplicateFiles = Inr duplicateGraph"
  by (simp add: readCollection_def MAX_URLS_def duplicateFiles_def duplicateGraph_def initPage_def
      processSection1_def strtok_all_def findPageIndex_def Let_def upt_rec MAX_URL_LENGTH_def
      one_double_def)

lemma example_step:
  "map pageRank (pr_step (Num (17 / 20)) exampleGraph) = [Num (3 / 40), Num (1 / 2)]"
  by (simp add: pr_step_def calculateNewRanks_def initializePreviousRanks_def exampleGraph_def upt_rec
      one_double_def zero_double_def minus_double_def)

lemma example_run:
  "calculatePageRank exampleGraph (Num (17 / 20)) (Num (1 / 10000)) 1 =
     (pr_step (Num (17 / 20)) exampleGraph, 1, Num (17 / 40))"
  unfolding calculatePageRank_def
  by (subst loop_unfold)
    (simp add: pr_diff_def pr_step_def calculateNewRanks_def initializePreviousRanks_def
      exampleGraph_def upt_rec computePageRankDiff_def one_double_def zero_double_def
      minus_double_def)

lemma emptyFiles_open: "\<forall>u\<in>set us. emptyFiles u \<noteq> None"
  by (simp add: emptyFiles_def)

text \<open>
  C1. The claim: in every update, a document \<open>j\<close> with out-degree 0 adds \<open>prev[j] / N\<close> to the
  sum of every document \<open>i\<close>. The code adds it only under \<open>if (pages[j].links[i])\<close>, and a
  document with out-degree 0 has no link (lemma \<open>dangling_no_links\<close>), so the branch for
  out-degree 0 never runs (lemma \<open>dangling_contributes_nothing\<close>). On the collection where A
  links to B and B links to nothing, B has out-degree 0 and \<open>prev[B] / N = 1/4\<close>, yet B adds 0
  to the sum of A, whose new score is only the teleport share \<open>(1 - d) / N = 3/40\<close>.
\<close>

theorem dangling_mass_dropped:
  "readCollection MAX_URLS (Some [''A'', ''B'']) exampleFiles = Inr exampleGraph
   \<and> outDegree (exampleGraph ! 1) = 0
   \<and> initializePreviousRanks exampleGraph ! 1 / Num (of_nat (length exampleGraph)) = Num (1 / 4)
   \<and> contribution exampleGraph (initializePreviousRanks exampleGraph) 0 1 = 0
   \<and> sumIncoming exampleGraph (initializePreviousRanks exampleGraph) 0 [0..<length exampleGraph] 0 = 0
   \<and> pageRank (calculateNewRanks exampleGraph (initializePreviousRanks exampleGraph)
         (Num (17 / 20)) ! 0)
        = Num (3 / 40)"
  using example_readCollection example_step
  by (simp add: exampleGraph_def initializePreviousRanks_def contribution_def upt_rec
      calculateNewRanks_def one_double_def zero_double_def minus_double_def)

lemma sum_list_Num: "sum_list (map (\<lambda>x. Num (f x)) xs) = Num (sum_list (map f xs))"
  by (induction xs) (simp_all add: zero_double_def)

lemma column_sum:
  fixes x :: rat and N :: nat and l :: "nat \<Rightarrow> int"
  assumes "od \<noteq> 0" "od = int (card {i \<in> {0..<N}. l i \<noteq> 0})"
  shows "(\<Sum>i = 0..<N. if l i \<noteq> 0 then x / of_int od else 0) = x"
proof -
  let ?S = "{i \<in> {0..<N}. l i \<noteq> 0}"
  have "(\<Sum>i = 0..<N. if l i \<noteq> 0 then x / of_int od else 0) = (\<Sum>i\<in>?S. x / of_int od)"
    by (rule sum.inter_filter [symmetric]) simp
  also have "\<dots> = of_nat (card ?S) * (x / of_int od)" by simp
  also have "\<dots> = of_int od * (x / of_int od)" by (simp add: assms(2))
  also have "\<dots> = x" using assms(1) by simp
  finally show ?thesis .
qed

lemma conservation_without_dangling:
  assumes "d = Num dr" "pages \<noteq> []"
    and "\<forall>p\<in>set pages. isNum (pageRank p)"
    and "\<forall>j<length pages. outDegree (pages ! j) \<noteq> 0 \<and>
          outDegree (pages ! j) = int (card {i \<in> {0..<length pages}. links (pages ! j) i \<noteq> 0})"
    and "sum_list (map pageRank pages) = Num 1"
  shows "sum_list (map pageRank (pr_step d pages)) = Num 1"
proof -
  let ?N = "length pages"
  let ?prev = "map pageRank pages"
  let ?r = "\<lambda>j. val (pageRank (pages ! j))"
  let ?c = "\<lambda>i j. if links (pages ! j) i \<noteq> 0 then ?r j / of_int (outDegree (pages ! j)) else 0"
  let ?rho = "\<lambda>i. (1 - dr) / of_nat ?N + dr * (\<Sum>j = 0..<?N. ?c i j)"
  have N: "(of_nat ?N :: rat) \<noteq> 0" using assms(2) by simp
  have prev: "pageRank (pages ! j) = Num (?r j)" if "j < ?N" for j
  proof -
    from that assms(3) have "isNum (pageRank (pages ! j))" by simp
    then show ?thesis by (cases "pageRank (pages ! j)") simp_all
  qed
  have contr: "contribution pages ?prev i j = Num (?c i j)" if "j < ?N" for i j
  proof -
    from assms(4) that have od: "outDegree (pages ! j) \<noteq> 0" by blast
    have "?prev ! j = Num (?r j)" using prev [OF that] that by simp
    then show ?thesis
      unfolding contribution_def using od by (simp add: zero_double_def)
  qed
  have step: "pageRank (pr_step d pages ! i) = Num (?rho i)" if i: "i < ?N" for i
  proof -
    have "map (contribution pages ?prev i) [0..<?N] = map (\<lambda>j. Num (?c i j)) [0..<?N]"
      by (intro map_cong refl contr) simp
    then have "sum_list (map (contribution pages ?prev i) [0..<?N]) = Num (\<Sum>j = 0..<?N. ?c i j)"
      by (simp only: sum_list_Num interv_sum_list_conv_sum_set_nat set_upt)
    then show ?thesis
      unfolding pr_step_pageRank [OF i] assms(1) using N
      by (simp add: one_double_def minus_double_def)
  qed
  have "map pageRank (pr_step d pages) = map (\<lambda>i. pageRank (pr_step d pages ! i)) [0..<?N]"
    by (rule nth_equalityI) (simp_all add: pr_step_length)
  also have "\<dots> = map (\<lambda>i. Num (?rho i)) [0..<?N]"
    by (intro map_cong refl step) simp
  finally have "sum_list (map pageRank (pr_step d pages)) = Num (\<Sum>i = 0..<?N. ?rho i)"
    by (simp only: sum_list_Num interv_sum_list_conv_sum_set_nat set_upt)
  moreover have "(\<Sum>i = 0..<?N. ?rho i) = 1"
  proof -
    have "?prev = map (\<lambda>j. Num (?r j)) [0..<?N]"
      using prev by (intro nth_equalityI) simp_all
    then have "sum_list ?prev = Num (\<Sum>j = 0..<?N. ?r j)"
      by (simp only: sum_list_Num interv_sum_list_conv_sum_set_nat set_upt)
    with assms(5) have one: "(\<Sum>j = 0..<?N. ?r j) = 1" by simp
    have "(\<Sum>i = 0..<?N. ?rho i) = (1 - dr) + dr * (\<Sum>i = 0..<?N. \<Sum>j = 0..<?N. ?c i j)"
      using N by (simp add: sum.distrib sum_distrib_left)
    also have "(\<Sum>i = 0..<?N. \<Sum>j = 0..<?N. ?c i j) = (\<Sum>j = 0..<?N. \<Sum>i = 0..<?N. ?c i j)"
      by (rule sum.swap)
    also have "\<dots> = (\<Sum>j = 0..<?N. ?r j)"
    proof (rule sum.cong)
      show "{0..<?N} = {0..<?N}" by simp
    next
      fix j assume "j \<in> {0..<?N}"
      then have "j < ?N" by simp
      with assms(4) have a: "outDegree (pages ! j) \<noteq> 0"
        and b: "outDegree (pages ! j) = int (card {i \<in> {0..<?N}. links (pages ! j) i \<noteq> 0})"
        by blast+
      from a b show "(\<Sum>i = 0..<?N. ?c i j) = ?r j" by (rule column_sum)
    qed
    finally show ?thesis using one by simp
  qed
  ultimately show ?thesis by simp
qed

text \<open>
  C2. The claim: after every iteration the scores sum to 1. On the same collection, with
  damping 17/20, the scores sum to 1 before the first iteration and to 23/40 after it: the
  mass of the dangling document B is dropped. The update does keep the sum when the damping
  factor and the scores are numbers, every document has a link and its \<open>outDegree\<close> is the
  number of its links (lemma \<open>conservation_without_dangling\<close>).
\<close>

theorem conservation_fails:
  "readCollection MAX_URLS (Some [''A'', ''B'']) exampleFiles = Inr exampleGraph
   \<and> sum_list (map pageRank exampleGraph) = Num 1
   \<and> sum_list (map pageRank
         (fst (calculatePageRank exampleGraph (Num (17 / 20)) (Num (1 / 10000)) 1))) = Num (23 / 40)"
  using example_readCollection example_step example_run
  by (simp add: exampleGraph_def)

text \<open>
  C3. The claim: \<open>outDegree[i]\<close> is the number of distinct other documents that the link
  section of \<open>i\<close> names. The code sets \<open>links[linkedIndex] = 1\<close> and increments \<open>outDegree\<close>
  for every token, so a document named twice is counted twice (lemma
  \<open>readCollection_graph\<close>). On the collection where the link section of A is \<open>B B\<close>, A has one
  distinct target and \<open>outDegree\<close> 2. The edges are as the claim says (lemma
  \<open>readCollection_edges\<close>).
\<close>

theorem duplicate_links_raise_outDegree:
  "readCollection MAX_URLS (Some [''A'', ''B'']) duplicateFiles = Inr duplicateGraph
   \<and> section1Tokens False [''#start Section-1\<newline>'', ''B B\<newline>'', ''#end Section-1\<newline>''] = [''B'', ''B'']
   \<and> distinctTargets [''A'', ''B''] 0 [''B'', ''B''] = [1]
   \<and> outDegree (duplicateGraph ! 0) = 2"
  using duplicate_readCollection
  by (simp add: duplicateGraph_def distinctTargets_def strtok_all_def upt_rec)




text \<open>
  C10. For all parameters, \<open>calculatePageRank\<close> runs the update \<open>k \<ge> 1\<close> times; when
  \<open>maxIterations \<le> 1\<close> (so also when it is 0 or negative) or when the threshold is already
  met, it runs it exactly once. One update keeps the number of documents and gives every
  document \<open>i\<close> the score \<open>(1 - d) / N + d * sum\<close>, where the sum is over the scores
  before the update.
\<close>

theorem calculatePageRank_updates_at_least_once:
  "(\<exists>k. 1 \<le> k \<and> fst (calculatePageRank pages d diffPR maxIterations) = (pr_step d ^^ k) pages
        \<and> fst (snd (calculatePageRank pages d diffPR maxIterations)) = int k)
   \<and> (maxIterations \<le> 1 \<or> pr_diff d pages < diffPR \<longrightarrow>
        calculatePageRank pages d diffPR maxIterations = (pr_step d pages, 1, pr_diff d pages))
   \<and> length (pr_step d pages) = length pages
   \<and> (\<forall>i < length pages. pageRank (pr_step d pages ! i) =
        (1 - d) / Num (of_nat (length pages))
          + d * sum_list (map (contribution pages (map pageRank pages) i) [0..<length pages]))"
proof -
  have a: "\<exists>k. 1 \<le> k \<and> fst (calculatePageRank pages d diffPR maxIterations) = (pr_step d ^^ k) pages
        \<and> fst (snd (calculatePageRank pages d diffPR maxIterations)) = int k"
    using loop_result [of pages d diffPR maxIterations 0] by (auto simp: calculatePageRank_def)
  have b: "maxIterations \<le> 1 \<or> pr_diff d pages < diffPR \<longrightarrow>
        calculatePageRank pages d diffPR maxIterations = (pr_step d pages, 1, pr_diff d pages)"
    unfolding calculatePageRank_def by (subst loop_unfold) (auto dest: double_less_not_le)
  show ?thesis using a b pr_step_length pr_step_pageRank by blast
qed

theorem calculatePageRank_updates_at_least_once_witness:
  "(0::int) \<le> 1 \<and>
   calculatePageRank exampleGraph (Num (17 / 20)) (Num (1 / 10000)) 0 =
     (pr_step (Num (17 / 20)) exampleGraph, 1, pr_diff (Num (17 / 20)) exampleGraph)
   \<and> (1::nat) < length exampleGraph
   \<and> pageRank (pr_step (Num (17 / 20)) exampleGraph ! 1) = Num (1 / 2)"
proof -
  have l: "(1::nat) < length exampleGraph" by (simp add: exampleGraph_def)
  have "pageRank (pr_step (Num (17 / 20)) exampleGraph ! 1) =
        (1 - Num (17 / 20)) / Num (of_nat (length exampleGraph))
          + Num (17 / 20) * sum_list (map (contribution exampleGraph (map pageRank exampleGraph) 1)
              [0..<length exampleGraph])"
    using calculatePageRank_updates_at_least_once
      [of exampleGraph "Num (17 / 20)" "Num (1 / 10000)" 0] l
    by blast
  also have "\<dots> = Num (1 / 2)"
    by (simp add: exampleGraph_def contribution_def upt_rec one_double_def zero_double_def
        minus_double_def)
  finally have "pageRank (pr_step (Num (17 / 20)) exampleGraph ! 1) = Num (1 / 2)" .
  then show ?thesis
    using calculatePageRank_updates_at_least_once
      [of exampleGraph "Num (17 / 20)" "Num (1 / 10000)" 0] l
    by simp
qed

text \<open>
  C8, as claimed: a manifest of more than \<open>MAX_URLS\<close> names is a fatal error. It is not:
  for the manifest of 1001 names the program returns status 0 and ranks the first 1000.
\<close>

theorem manifest_overflow_not_fatal:
  "MAX_URLS < length manifest1001
   \<and> exit_status (pagerank_main 4 (Num (17 / 20)) (Num (1 / 10000)) 100 (Some manifest1001)
        emptyFiles True) = Some 0
   \<and> map url (projr (pagerank_main 4 (Num (17 / 20)) (Num (1 / 10000)) 100 (Some manifest1001)
        emptyFiles True))
        = take 1000 manifest1001
   \<and> length (projr (pagerank_main 4 (Num (17 / 20)) (Num (1 / 10000)) 100 (Some manifest1001)
        emptyFiles True)) = 1000"
proof -
  have fit: "\<forall>u\<in>set (take MAX_URLS manifest1001). length u < MAX_URL_LENGTH"
    unfolding manifest1001_def by (rule manifest_fits)
  obtain pages where p: "pagerank_main 4 (Num (17 / 20)) (Num (1 / 10000)) 100 (Some manifest1001)
        emptyFiles True = Inr pages"
    and u: "map url pages = take MAX_URLS manifest1001"
    using pagerank_main_truncates [OF fit emptyFiles_open] by blast
  have "length (map url pages) = 1000" unfolding u by (simp add: MAX_URLS_def manifest1001_def)
  then have "length pages = 1000" by simp
  with p u show ?thesis by (simp add: exit_status_def MAX_URLS_def manifest1001_def)
qed

text \<open>
  C8, amended: the rank stage reads the first \<open>MAX_URLS\<close> names of the manifest and ignores
  the rest without a message. Called with three arguments, when each of these names is
  shorter than \<open>MAX_URL_LENGTH\<close> bytes and its file opens, it ranks exactly these documents;
  it returns status 0 when \<open>pagerankList.txt\<close> can be opened for writing and exits with
  status 1 when it cannot.
\<close>

theorem pagerank_main_reads_first_MAX_URLS:
  assumes "\<forall>u\<in>set (take MAX_URLS names). length u < MAX_URL_LENGTH"
    and "\<forall>u\<in>set (take MAX_URLS names). files u \<noteq> None"
  shows "exit_status (pagerank_main 4 d diffPR maxIterations (Some names) files True) = Some 0
     \<and> map url (projr (pagerank_main 4 d diffPR maxIterations (Some names) files True))
          = take MAX_URLS names
     \<and> length (projr (pagerank_main 4 d diffPR maxIterations (Some names) files True))
          = min MAX_URLS (length names)
     \<and> exit_status (pagerank_main 4 d diffPR maxIterations (Some names) files False) = Some 1"
proof -
  obtain pages where p: "pagerank_main 4 d diffPR maxIterations (Some names) files True = Inr pages"
    and u: "map url pages = take MAX_URLS names"
    using pagerank_main_truncates [OF assms, of d diffPR maxIterations] by blast
  have "length (map url pages) = min MAX_URLS (length names)" unfolding u by (simp add: min.commute)
  then have l: "length pages = min MAX_URLS (length names)" by simp
  from readCollection_succeeds [OF assms] obtain pages0 where
    "readCollection MAX_URLS (Some names) files = Inr pages0" by blast
  then have "pagerank_main 4 d diffPR maxIterations (Some names) files False = Inl OutputOpenError"
    by (simp add: pagerank_main_def writePageRankToFile_def)
  with p u l show ?thesis by (simp add: exit_status_def)
qed

theorem pagerank_main_reads_first_MAX_URLS_witness:
  "MAX_URLS < length manifest1200
   \<and> exit_status (pagerank_main 4 (Num (17 / 20)) (Num (1 / 10000)) 100 (Some manifest1200)
        emptyFiles True) = Some 0
   \<and> length (projr (pagerank_main 4 (Num (17 / 20)) (Num (1 / 10000)) 100 (Some manifest1200)
        emptyFiles True)) = 1000
   \<and> exit_status (pagerank_main 4 (Num (17 / 20)) (Num (1 / 10000)) 100 (Some manifest1200)
        emptyFiles False) = Some 1"
proof -
  have fit: "\<forall>u\<in>set (take MAX_URLS manifest1200). length u < MAX_URL_LENGTH"
    unfolding manifest1200_def by (rule manifest_fits)
  have l: "min MAX_URLS (length manifest1200) = 1000" "MAX_URLS < length manifest1200"
    by (simp_all add: MAX_URLS_def manifest1200_def)
  from pagerank_main_reads_first_MAX_URLS [OF fit emptyFiles_open,
      of "Num (17 / 20)" "Num (1 / 10000)" 100] l
  show ?thesis by simp
qed

section \<open>The inverted index\<close>

lemma pairsOf_alt: "pairsOf t = {(w, f). \<exists>fl. (w, fl) \<in> set (indexEntries t) \<and> f \<in> set fl}"
  by (force simp: pairsOf_def)






lemma wordsOf_simps [simp]:
  "wordsOf Null = {}"
  "wordsOf (TreeNode rw fl l r) = insert rw (wordsOf l \<union> wordsOf r)"
  by (auto simp: wordsOf_def)

lemma pairsOf_simps [simp]:
  "pairsOf Null = {}"
  "pairsOf (TreeNode rw fl l r) = pairsOf l \<union> {rw} \<times> set fl \<union> pairsOf r"
  by (auto simp: pairsOf_alt)





















section \<open>Claims about invertedIndex.c\<close>














section \<open>Claims about searchPagerank.c\<close>

lemma loopL_map:
  "loopL u prl = map (\<lambda>e. e\<lparr>matchCount := matchCount e + (if u = u_url e then 1 else 0)\<rparr>) prl"
  by (induction prl) (simp_all add: strcmp_eq)

lemma loopK_map:
  "loopK us prl = map (\<lambda>e. e\<lparr>matchCount := matchCount e + int (count_list us (u_url e))\<rparr>) prl"
proof (induction us arbitrary: prl)
  case Nil
  show ?case by simp
next
  case (Cons u us)
  show ?case by (simp add: Cons loopL_map comp_def)
qed

lemma loopJ_map:
  "loopJ term wes prl = map (\<lambda>e. e\<lparr>matchCount := matchCount e + hits wes term (u_url e)\<rparr>) prl"
proof (induction wes arbitrary: prl)
  case Nil
  show ?case by (simp add: hits_def)
next
  case (Cons we wes)
  have h: "hits (we # wes) term name =
      (if term = we_word we then int (count_list (urls we) name) else 0) + hits wes term name" for name
    by (simp add: hits_def)
  have step: "loopJ term (we # wes) prl =
      loopJ term wes (if term = we_word we then loopK (urls we) prl else prl)"
    by (simp add: strcmp_eq)
  show ?case unfolding step Cons h by (simp add: loopK_map comp_def)
qed

lemma loopI_map:
  "loopI terms wes prl =
     map (\<lambda>e. e\<lparr>matchCount := matchCount e + queryHits wes terms (u_url e)\<rparr>) prl"
proof (induction terms arbitrary: prl)
  case Nil
  show ?case by (simp add: queryHits_def)
next
  case (Cons t terms)
  have h: "queryHits wes (t # terms) name = hits wes t name + queryHits wes terms name" for name
    by (simp add: queryHits_def)
  show ?case by (simp add: Cons loopJ_map comp_def h)
qed

lemma count_list_distinct: "distinct xs \<Longrightarrow> count_list xs x = (if x \<in> set xs then 1 else 0)"
  by (induction xs) auto

lemma hits_absent: "term \<notin> we_word ` set wes \<Longrightarrow> hits wes term name = 0"
  by (induction wes) (auto simp: hits_def)

lemma hits_wellFormed:
  "wellFormedIndex wes \<Longrightarrow> hits wes term name = (if indexHas wes term name then 1 else 0)"
proof (induction wes)
  case Nil
  show ?case by (simp add: hits_def indexHas_def)
next
  case (Cons we wes)
  then have wf: "wellFormedIndex wes" and d: "distinct (urls we)" and n: "we_word we \<notin> we_word ` set wes"
    by (auto simp: wellFormedIndex_def)
  have h: "hits (we # wes) term name =
      (if term = we_word we then int (count_list (urls we) name) else 0) + hits wes term name"
    by (simp add: hits_def)
  show ?case
  proof (cases "term = we_word we")
    case True
    with n have "hits wes term name = 0" by (simp add: hits_absent)
    moreover have "\<not> indexHas wes term name"
      using True n by (auto simp: indexHas_def image_iff)
    then have "indexHas (we # wes) term name \<longleftrightarrow> name \<in> set (urls we)"
      using True by (auto simp: indexHas_def)
    ultimately show ?thesis using True h d by (simp add: count_list_distinct)
  next
    case False
    then have "indexHas (we # wes) term name \<longleftrightarrow> indexHas wes term name"
      by (auto simp: indexHas_def)
    with False h Cons.IH [OF wf] show ?thesis by simp
  qed
qed

lemma queryHits_wellFormed:
  "wellFormedIndex wes \<Longrightarrow>
   queryHits wes terms name = int (length (filter (\<lambda>term. indexHas wes term name) terms))"
  by (induction terms) (simp_all add: queryHits_def hits_wellFormed)

lemma findMatchingURLs_counts:
  assumes "l < length ranks"
  shows "matchCount (fst (findMatchingURLs wes (parsePageRankList ranks) terms) ! l)
           = queryHits wes terms (fst (ranks ! l))"
    and "u_url (fst (findMatchingURLs wes (parsePageRankList ranks) terms) ! l) = fst (ranks ! l)"
  using assms
  by (simp_all add: findMatchingURLs_def Let_def loopI_map parsePageRankList_def case_prod_beta)

text \<open>
  C5, as claimed: the match count of a document is the number of distinct query terms whose
  document set holds it, so a repeated term does not raise it. It does: for the query
  \<open>cat cat\<close> and the index line \<open>cat A\<close>, one distinct term matches A and its match count
  is 2.
\<close>

theorem repeated_query_term_counted_twice:
  "matchCount (fst (findMatchingURLs catIndex (parsePageRankList [(''A'', 1 / 2)]) [''cat'', ''cat'']) ! 0)
     = 2
   \<and> distinctMatches catIndex [''cat'', ''cat''] ''A'' = 1"
proof -
  have "{term \<in> set [''cat'', ''cat'']. indexHas catIndex term ''A''} = {''cat''}"
    by (auto simp: indexHas_def catIndex_def)
  then have "distinctMatches catIndex [''cat'', ''cat''] ''A'' = 1"
    by (simp add: distinctMatches_def)
  moreover have "matchCount (fst (findMatchingURLs catIndex (parsePageRankList [(''A'', 1 / 2)])
      [''cat'', ''cat'']) ! 0) = 2"
    by (simp add: findMatchingURLs_def parsePageRankList_def catIndex_def Let_def)
  ultimately show ?thesis by simp
qed

text \<open>
  C5, amended: for an index with no term twice and no document twice in a line, the match
  count of every document of the rank table is the number of query arguments, each
  occurrence counted, whose document set holds it; when no query term is repeated this is
  the number of distinct query terms whose document set holds it.
\<close>

theorem match_count_counts_query_occurrences:
  assumes "wellFormedIndex wordEntries" "l < length ranks"
  shows "u_url (fst (findMatchingURLs wordEntries (parsePageRankList ranks) searchTerms) ! l)
           = fst (ranks ! l)
     \<and> matchCount (fst (findMatchingURLs wordEntries (parsePageRankList ranks) searchTerms) ! l)
           = int (occurrenceMatches wordEntries searchTerms (fst (ranks ! l)))
     \<and> (distinct searchTerms \<longrightarrow>
          matchCount (fst (findMatchingURLs wordEntries (parsePageRankList ranks) searchTerms) ! l)
           = int (distinctMatches wordEntries searchTerms (fst (ranks ! l))))"
proof -
  have "distinct searchTerms \<Longrightarrow>
      occurrenceMatches wordEntries searchTerms (fst (ranks ! l))
        = distinctMatches wordEntries searchTerms (fst (ranks ! l))"
    by (simp add: occurrenceMatches_def distinctMatches_def distinct_length_filter Int_def
        conj_commute)
  then show ?thesis
    using findMatchingURLs_counts [OF assms(2), of wordEntries searchTerms]
      queryHits_wellFormed [OF assms(1)]
    by (simp add: occurrenceMatches_def)
qed

theorem match_count_counts_query_occurrences_witness:
  "matchCount (fst (findMatchingURLs catDogIndex (parsePageRankList catDogRanks) [''cat'', ''dog'']) ! 1)
     = 2
   \<and> u_url (fst (findMatchingURLs catDogIndex (parsePageRankList catDogRanks) [''cat'', ''dog'']) ! 1)
     = ''B''"
proof -
  have wf: "wellFormedIndex catDogIndex" by (simp add: wellFormedIndex_def catDogIndex_def)
  have l: "1 < length catDogRanks" by (simp add: catDogRanks_def)
  have n: "fst (catDogRanks ! 1) = ''B''" by (simp add: catDogRanks_def)
  have "indexHas catDogIndex ''cat'' ''B''" "indexHas catDogIndex ''dog'' ''B''"
    by (simp_all add: indexHas_def catDogIndex_def)
  then have len: "occurrenceMatches catDogIndex [''cat'', ''dog''] ''B'' = 2"
    by (simp add: occurrenceMatches_def)
  note t = match_count_counts_query_occurrences [OF wf l, of "[''cat'', ''dog'']", unfolded n len]
  from t show ?thesis by simp
qed

end
